theory Spec2Isabelle
  imports Main "HOL-Library.Multiset"
begin

section \<open>The list widget of App.tsx\<close>

text \<open>
  The component \<open>App\<close> keeps five pieces of React state (\<open>items\<close>, \<open>selected\<close>,
  \<open>originalItems\<close>, \<open>page\<close>, \<open>query\<close>) and two mutable references
  (\<open>loadingRef\<close>, \<open>dragItem\<close>). Every handler and every promise callback is modelled as
  a function from the state to the new state. The fields \<open>items\<close>, \<open>selected\<close>,
  \<open>originalItems\<close>, \<open>page\<close> and \<open>query\<close> hold the current values, that is, the values of
  the last render with every update called since then applied in order; an update given
  as a function (\<open>setItems(prev => ...)\<close>) reads them. A handler, however, is a closure of
  the last render: the constants \<open>items\<close> and \<open>originalItems\<close> it reads are the values
  of that render, kept in \<open>renderedItems\<close> and \<open>renderedOriginalItems\<close>. References are
  read and written at once. Numbers are integers (item ids and page numbers), strings
  are character lists.
\<close>

subsection \<open>Data\<close>

text \<open>\<open>type Item = { id: number; name: string }\<close>; the field \<open>id\<close> is written \<open>id'\<close>.\<close>

record item =
  id' :: int
  name :: string

text \<open>The body of a successful answer of \<open>GET /items\<close>, read as \<open>res.data\<close>.\<close>

record response =
  data_items :: "item list"
  data_selected :: "int list"

text \<open>The three numbers \<open>handleScroll\<close> reads from \<open>listRef.current\<close>.\<close>

record scroll_box =
  scrollTop :: int
  scrollHeight :: int
  clientHeight :: int

text \<open>Everything the component sends out: the three HTTP calls and \<open>console.error\<close>.\<close>

datatype call =
  GetItems int string
  | PostSelection "int set"
  | PostOrder "int list"

record app =
  items :: "item list"
  selected :: "int set"
  originalItems :: "item list"
  page :: int
  query :: string
  loadingRef :: bool
  dragItem :: "int option"
  \<comment> \<open>the constants of the last render that handlers read\<close>
  renderedItems :: "item list"
  renderedOriginalItems :: "item list"
  \<comment> \<open>the surroundings of the component\<close>
  inflight :: "(int \<times> string) list"  \<comment> \<open>requests sent, answer not yet received, with the page and query of their closure\<close>
  settling :: nat  \<comment> \<open>promise chains whose \<open>then\<close> or \<open>catch\<close> ran and whose \<open>finally\<close> is still to run\<close>
  sent :: "call list"  \<comment> \<open>every HTTP call issued so far, oldest first\<close>
  console :: nat  \<comment> \<open>number of \<open>console.error\<close> lines written\<close>
  depsQuery :: "string option"  \<comment> \<open>the \<open>query\<close> of the previous effect run, \<open>None\<close> before mount\<close>

definition init :: app where
  "init = \<lparr> items = [], selected = {}, originalItems = [], page = 1, query = [],
            loadingRef = False, dragItem = None,
            renderedItems = [], renderedOriginalItems = [],
            inflight = [], settling = 0, sent = [], console = 0, depsQuery = None \<rparr>"

subsection \<open>Array primitives\<close>

text \<open>\<open>Array.prototype.findIndex\<close>: the first index whose element satisfies the
  predicate, \<open>-1\<close> when there is none.\<close>

fun findIndex :: "('a \<Rightarrow> bool) \<Rightarrow> 'a list \<Rightarrow> int" where
  "findIndex P [] = -1"
| "findIndex P (x # xs) =
     (if P x then 0
      else (let r = findIndex P xs in if r = -1 then -1 else r + 1))"

text \<open>\<open>Array.prototype.splice(start, deleteCount, ...ins)\<close>: a negative \<open>start\<close> counts
  from the end, the start is clamped to the array, and no more elements are deleted than
  remain. The result is the pair of the removed elements and the array afterwards.\<close>

definition splice_start :: "int \<Rightarrow> nat \<Rightarrow> nat" where
  "splice_start start len =
     (if start < 0 then nat (max (int len + start) 0) else min (nat start) len)"

definition splice :: "'a list \<Rightarrow> int \<Rightarrow> nat \<Rightarrow> 'a list \<Rightarrow> 'a list \<times> 'a list" where
  "splice xs start deleteCount ins =
     (let k = splice_start start (length xs);
          dc = min deleteCount (length xs - k)
      in (take dc (drop k xs), take k xs @ ins @ drop (k + dc) xs))"

subsection \<open>The fetch effect and its promise chain\<close>

text \<open>The synchronous part of the first \<open>useEffect\<close>: leave when a request is under way,
  otherwise raise the flag and send \<open>GET /items\<close> for the rendered page and query.\<close>

definition fetchEffect :: "app \<Rightarrow> app" where
  "fetchEffect s =
     (if loadingRef s then s
      else s\<lparr> loadingRef := True,
              inflight := inflight s @ [(page s, query s)],
              sent := sent s @ [GetItems (page s) (query s)] \<rparr>)"

text \<open>The \<open>then\<close> callback; \<open>reqPage\<close> is the \<open>page\<close> of the closure that sent the request.\<close>

definition then_cb :: "int \<Rightarrow> response \<Rightarrow> app \<Rightarrow> app" where
  "then_cb reqPage res s =
     s\<lparr> items := (if reqPage = 1 then data_items res else items s @ data_items res),
        originalItems := data_items res,
        selected := set (data_selected res) \<rparr>"

definition catch_cb :: "app \<Rightarrow> app" where
  "catch_cb s = s\<lparr> console := Suc (console s) \<rparr>"

definition finally_cb :: "app \<Rightarrow> app" where
  "finally_cb s = s\<lparr> loadingRef := False \<rparr>"

text \<open>The second \<open>useEffect\<close>, run when \<open>query\<close> differs from the previous run.\<close>

definition queryEffect :: "app \<Rightarrow> app" where
  "queryEffect s = s\<lparr> page := 1 \<rparr>"

text \<open>A render and one pass of its effects. The render fixes the constants that the
  handlers it creates will read. \<open>api\<close> is created anew by every render, so the
  dependency list of the fetch effect always differs and the effect always runs.\<close>

definition render :: "app \<Rightarrow> app" where
  "render s =
     (let s1 = fetchEffect s;
          s2 = (if depsQuery s = Some (query s) then s1 else queryEffect s1)
      in s2\<lparr> depsQuery := Some (query s),
             renderedItems := items s,
             renderedOriginalItems := originalItems s \<rparr>)"

subsection \<open>Handlers\<close>

definition handleScroll :: "scroll_box option \<Rightarrow> app \<Rightarrow> app" where
  "handleScroll listRef s =
     (case listRef of
        None \<Rightarrow> s
      | Some el \<Rightarrow>
          if \<not> loadingRef s then
            (if scrollTop el + clientHeight el \<ge> scrollHeight el - 10
             then s\<lparr> page := page s + 1 \<rparr> else s)
          else s)"

definition handleToggleSelect :: "int \<Rightarrow> app \<Rightarrow> app" where
  "handleToggleSelect i s =
     (let newSet = (if i \<in> selected s then selected s - {i} else insert i (selected s))
      in s\<lparr> selected := newSet, sent := sent s @ [PostSelection newSet] \<rparr>)"

definition handleDragStart :: "int \<Rightarrow> app \<Rightarrow> app" where
  "handleDragStart i s = s\<lparr> dragItem := Some i \<rparr>"

text \<open>\<open>handleDrop\<close>, as a function of the state its closure captured: the \<open>items\<close> it
  reads are those of the state it is applied to. The destructuring \<open>[movedItem]\<close> takes the first removed element; the
  list of removed elements is never empty there (lemma \<open>splice_removes_one\<close> below), so
  the first branch of the inner \<open>case\<close> is never taken.\<close>

definition handleDrop :: "int \<Rightarrow> app \<Rightarrow> app" where
  "handleDrop targetId s =
     (case dragItem s of
        None \<Rightarrow> s
      | Some draggedItemId \<Rightarrow>
          if draggedItemId = targetId then s
          else
            (let draggedItemIndex = findIndex (\<lambda>it. id' it = draggedItemId) (items s);
                 targetItemIndex = findIndex (\<lambda>it. id' it = targetId) (items s)
             in if draggedItemIndex = -1 \<or> targetItemIndex = -1 then s
                else
                  (case splice (items s) draggedItemIndex 1 [] of
                     ([], _) \<Rightarrow> s
                   | (movedItem # _, newItems1) \<Rightarrow>
                       (let newItems = snd (splice newItems1 targetItemIndex 0 [movedItem])
                        in s\<lparr> items := newItems,
                                sent := sent s @ [PostOrder (map id' newItems)] \<rparr>))))"

text \<open>\<open>handleSearchChange\<close>. \<open>setItems(originalItems)\<close> passes the constant of the last
  render, not the snapshot a \<open>then\<close> callback may have set since.\<close>

definition handleSearchChange :: "string \<Rightarrow> app \<Rightarrow> app" where
  "handleSearchChange q s =
     (let s1 = s\<lparr> query := q, page := 1 \<rparr>
      in if q = [] then s1\<lparr> items := renderedOriginalItems s \<rparr> else s1)"

text \<open>A drop on the component as it stands. The handler runs on the \<open>items\<close> of the last
  render. When it returns early it has called nothing and the state stays as it is;
  otherwise \<open>setItems(newItems)\<close> puts the reordered rendered list in place of the
  current one and the order is posted.\<close>

definition dropOnRendered :: "int \<Rightarrow> app \<Rightarrow> app" where
  "dropOnRendered targetId s =
     (let v = handleDrop targetId (s\<lparr> items := renderedItems s \<rparr>)
      in if length (sent v) = length (sent s) then s else v)"

text \<open>\<open>reorder(draggedId, targetId)\<close> of the specification is a drag started on one item
  and dropped on another.\<close>

definition reorder :: "int \<Rightarrow> int \<Rightarrow> app \<Rightarrow> app" where
  "reorder draggedId targetId s = handleDrop targetId (handleDragStart draggedId s)"

subsection \<open>Events\<close>

text \<open>What can happen to the component: a render followed by its effects, the answer or
  the failure of the \<open>n\<close>-th request under way, the \<open>finally\<close> of a chain, and the five
  gestures. An event that cannot happen in a state (an answer with no such request, a
  \<open>finally\<close> with no chain waiting for it) gives \<open>None\<close>. Events may come in any
  order: nothing is assumed about when React renders or when the network answers.\<close>

datatype event =
  Render
  | Response nat response
  | Failure nat
  | Finally
  | Scroll "scroll_box option"
  | SearchChange string
  | ToggleSelect int
  | DragStart int
  | Drop int

fun fire :: "event \<Rightarrow> app \<Rightarrow> app option" where
  "fire Render s = Some (render s)"
| "fire (Response n res) s =
     (if n < length (inflight s)
      then Some (then_cb (fst (inflight s ! n)) res
                   (s\<lparr> inflight := take n (inflight s) @ drop (Suc n) (inflight s),
                       settling := Suc (settling s) \<rparr>))
      else None)"
| "fire (Failure n) s =
     (if n < length (inflight s)
      then Some (catch_cb
                   (s\<lparr> inflight := take n (inflight s) @ drop (Suc n) (inflight s),
                       settling := Suc (settling s) \<rparr>))
      else None)"
| "fire Finally s =
     (if settling s = 0 then None
      else Some (finally_cb (s\<lparr> settling := settling s - 1 \<rparr>)))"
| "fire (Scroll listRef) s = Some (handleScroll listRef s)"
| "fire (SearchChange q) s = Some (handleSearchChange q s)"
| "fire (ToggleSelect i) s = Some (handleToggleSelect i s)"
| "fire (DragStart i) s = Some (handleDragStart i s)"
| "fire (Drop i) s = Some (dropOnRendered i s)"

fun run :: "event list \<Rightarrow> app \<Rightarrow> app option" where
  "run [] s = Some s"
| "run (e # es) s = (case fire e s of None \<Rightarrow> None | Some s' \<Rightarrow> run es s')"

text \<open>Whether an event is the arrival of a successful answer.\<close>

fun is_response :: "event \<Rightarrow> bool" where
  "is_response (Response n res) = True"
| "is_response e = False"

subsection \<open>Notions used in the statements\<close>

text \<open>The list with the element at index \<open>di\<close> taken out and put back at index \<open>ti\<close> of
  what remains.\<close>

definition moved :: "nat \<Rightarrow> nat \<Rightarrow> 'a list \<Rightarrow> 'a list" where
  "moved di ti xs =
     (let rest = take di xs @ drop (Suc di) xs
      in take ti rest @ [xs ! di] @ drop ti rest)"




text \<open>The bookkeeping of the fetch guard: the requests under way and the chains that
  still owe their \<open>finally\<close> number one when the flag is up and none when it is down.\<close>

definition guard_ok :: "app \<Rightarrow> bool" where
  "guard_ok s = (length (inflight s) + settling s = (if loadingRef s then 1 else 0))"

subsection \<open>The wording of the specification, for comparison\<close>

text \<open>The specification's description of \<open>reorder\<close>, word for word: remove the dragged
  item, then reinsert it immediately before the position the target has after the
  removal.\<close>

definition spec_reorder :: "int \<Rightarrow> int \<Rightarrow> item list \<Rightarrow> item list" where
  "spec_reorder draggedId targetId xs =
     (if draggedId = targetId then xs
      else
        (let di = findIndex (\<lambda>it. id' it = draggedId) xs
         in if di = -1 \<or> findIndex (\<lambda>it. id' it = targetId) xs = -1 then xs
            else
              (let rest = take (nat di) xs @ drop (Suc (nat di)) xs;
                   ti = findIndex (\<lambda>it. id' it = targetId) rest
               in take (nat ti) rest @ [xs ! nat di] @ drop (nat ti) rest)))"

subsection \<open>Sample data\<close>

text \<open>Four items, two answers of the server, and a list element scrolled to its
  bottom.\<close>

abbreviation item1 :: item where "item1 \<equiv> \<lparr>id' = 1, name = ''A''\<rparr>"
abbreviation item2 :: item where "item2 \<equiv> \<lparr>id' = 2, name = ''B''\<rparr>"
abbreviation item3 :: item where "item3 \<equiv> \<lparr>id' = 3, name = ''C''\<rparr>"
abbreviation item4 :: item where "item4 \<equiv> \<lparr>id' = 4, name = ''D''\<rparr>"

abbreviation answer12 :: response where
  "answer12 \<equiv> \<lparr>data_items = [item1, item2], data_selected = [2]\<rparr>"

abbreviation answer34 :: response where
  "answer34 \<equiv> \<lparr>data_items = [item3, item4], data_selected = [2, 3]\<rparr>"

abbreviation at_bottom :: "scroll_box option" where
  "at_bottom \<equiv> Some \<lparr>scrollTop = 550, scrollHeight = 1000, clientHeight = 450\<rparr>"

section \<open>Properties\<close>

subsection \<open>Array primitives\<close>

lemma findIndex_range:
  "findIndex P xs = -1 \<or> (0 \<le> findIndex P xs \<and> findIndex P xs < int (length xs))"
  by (induction xs) (auto simp: Let_def)

lemma findIndex_absent: "(findIndex P xs = -1) = (\<forall>x \<in> set xs. \<not> P x)"
proof (induction xs)
  case Nil
  show ?case by simp
next
  case (Cons x xs)
  have "findIndex P xs = -1 \<or> 0 \<le> findIndex P xs"
    using findIndex_range [of P xs] by blast
  with Cons show ?case by (auto simp: Let_def)
qed

lemma findIndex_nat:
  "findIndex P xs \<noteq> -1 \<Longrightarrow> findIndex P xs = int (nat (findIndex P xs))"
  using findIndex_range [of P xs] by simp

lemma findIndex_nth:
  "findIndex P xs = int k \<Longrightarrow> k < length xs \<and> P (xs ! k) \<and> (\<forall>j < k. \<not> P (xs ! j))"
proof (induction xs arbitrary: k)
  case Nil
  then show ?case by simp
next
  case (Cons x xs)
  show ?case
  proof (cases "P x")
    case True
    with Cons.prems show ?thesis by simp
  next
    case False
    with Cons.prems have r: "findIndex P xs \<noteq> -1" and k: "int k = findIndex P xs + 1"
      by (auto simp: Let_def split: if_splits)
    from findIndex_nat [OF r] k obtain k' where k': "k = Suc k'" "findIndex P xs = int k'"
      by (metis add.commute nat_int of_nat_Suc)
    from Cons.IH [OF k'(2)] False k'(1) show ?thesis
      by (auto simp: nth_Cons split: nat.splits)
  qed
qed

lemma findIndex_id:
  "i \<in> id' ` set xs \<Longrightarrow> findIndex (\<lambda>it. id' it = i) xs \<noteq> -1"
  by (auto simp: findIndex_absent)

lemma splice_removes_one:
  "k < length xs \<Longrightarrow> splice xs (int k) 1 [] = ([xs ! k], take k xs @ drop (Suc k) xs)"
  by (simp add: splice_def splice_start_def Let_def min_def take_Suc_conv_app_nth
      flip: Cons_nth_drop_Suc)

lemma splice_inserts:
  "k \<le> length xs \<Longrightarrow> splice xs (int k) 0 [x] = ([], take k xs @ [x] @ drop k xs)"
  by (simp add: splice_def splice_start_def Let_def min_def)

subsection \<open>What a drop does\<close>

lemma handleDrop_move:
  assumes "dragItem s = Some d" "d \<noteq> t"
    and "findIndex (\<lambda>it. id' it = d) (items s) = int di"
    and "findIndex (\<lambda>it. id' it = t) (items s) = int ti"
  shows "handleDrop t s =
           s\<lparr> items := moved di ti (items s),
              sent := sent s @ [PostOrder (map id' (moved di ti (items s)))] \<rparr>"
proof -
  from findIndex_nth [OF assms(3)] have di: "di < length (items s)" by simp
  from findIndex_nth [OF assms(4)] have ti: "ti < length (items s)" by simp
  let ?rest = "take di (items s) @ drop (Suc di) (items s)"
  from di ti have len: "ti \<le> length ?rest" by simp
  show ?thesis
    using assms splice_removes_one [OF di] splice_inserts [OF len]
    by (simp add: handleDrop_def Let_def moved_def)
qed

lemma handleDrop_cases:
  "handleDrop t s = s \<or>
   (\<exists>di ti. di < length (items s) \<and> ti < length (items s) \<and>
      handleDrop t s =
        s\<lparr> items := moved di ti (items s),
           sent := sent s @ [PostOrder (map id' (moved di ti (items s)))] \<rparr>)"
proof (cases "dragItem s")
  case None
  then show ?thesis by (simp add: handleDrop_def)
next
  case (Some d)
  show ?thesis
  proof (cases "d = t \<or> findIndex (\<lambda>it. id' it = d) (items s) = -1
      \<or> findIndex (\<lambda>it. id' it = t) (items s) = -1")
    case True
    with Some show ?thesis by (auto simp: handleDrop_def Let_def)
  next
    case False
    then have i: "findIndex (\<lambda>it. id' it = d) (items s)
          = int (nat (findIndex (\<lambda>it. id' it = d) (items s)))"
      "findIndex (\<lambda>it. id' it = t) (items s)
          = int (nat (findIndex (\<lambda>it. id' it = t) (items s)))"
      using findIndex_nat by blast+
    from False have "d \<noteq> t" by simp
    from handleDrop_move [OF Some this i] findIndex_nth [OF i(1)] findIndex_nth [OF i(2)]
    show ?thesis by blast
  qed
qed

lemma mset_moved: "di < length xs \<Longrightarrow> mset (moved di ti xs) = mset xs"
proof -
  assume di: "di < length xs"
  let ?rest = "take di xs @ drop (Suc di) xs"
  have "mset (moved di ti xs) = mset (take ti ?rest @ drop ti ?rest) + {#xs ! di#}"
    unfolding moved_def Let_def by (simp only: mset_append mset.simps) simp
  also have "\<dots> = mset ?rest + {#xs ! di#}" by (simp only: append_take_drop_id)
  also have "\<dots> = mset (take di xs @ xs ! di # drop (Suc di) xs)" by simp
  also have "\<dots> = mset xs" using di by (simp only: id_take_nth_drop [symmetric])
  finally show ?thesis .
qed

lemma mset_handleDrop: "mset (items (handleDrop t s)) = mset (items s)"
  using handleDrop_cases [of t s] by (auto simp: mset_moved)

lemma handleDrop_fields:
  "originalItems (handleDrop t s) = originalItems s \<and> loadingRef (handleDrop t s) = loadingRef s \<and>
   inflight (handleDrop t s) = inflight s \<and> settling (handleDrop t s) = settling s \<and>
   renderedItems (handleDrop t s) = renderedItems s \<and>
   renderedOriginalItems (handleDrop t s) = renderedOriginalItems s"
  using handleDrop_cases [of t s] by auto

lemma dropOnRendered_fields:
  "originalItems (dropOnRendered t s) = originalItems s \<and>
   loadingRef (dropOnRendered t s) = loadingRef s \<and>
   inflight (dropOnRendered t s) = inflight s \<and> settling (dropOnRendered t s) = settling s \<and>
   renderedItems (dropOnRendered t s) = renderedItems s \<and>
   renderedOriginalItems (dropOnRendered t s) = renderedOriginalItems s"
  by (simp add: dropOnRendered_def Let_def handleDrop_fields)



text \<open>C10. The list after \<open>reorder\<close>, and after any drop, is a permutation of the list
  before: the same items with the same multiplicities, hence the same length; nothing
  is lost, duplicated or altered.\<close>

theorem reorder_permutation:
  "mset (items (reorder draggedId targetId s)) = mset (items s) \<and>
   length (items (reorder draggedId targetId s)) = length (items s) \<and>
   set (items (reorder draggedId targetId s)) = set (items s) \<and>
   mset (items (handleDrop targetId s)) = mset (items s)"
proof -
  have m: "mset (items (reorder draggedId targetId s)) = mset (items s)"
    using mset_handleDrop [of targetId "handleDragStart draggedId s"]
    by (simp add: reorder_def handleDragStart_def)
  from m have "length (items (reorder draggedId targetId s)) = length (items s)"
    by (rule mset_eq_length)
  moreover from m have "set (items (reorder draggedId targetId s)) = set (items s)"
    by (rule mset_eq_setD)
  ultimately show ?thesis using m mset_handleDrop [of targetId s] by simp
qed

theorem reorder_permutation_witness:
  "mset (items (reorder 1 3 (init\<lparr> items :=
      [\<lparr>id' = 1, name = ''a''\<rparr>, \<lparr>id' = 2, name = ''b''\<rparr>, \<lparr>id' = 3, name = ''c''\<rparr>] \<rparr>)))
   = mset [\<lparr>id' = 1, name = ''a''\<rparr>, \<lparr>id' = 2, name = ''b''\<rparr>, \<lparr>id' = 3, name = ''c''\<rparr>]"
  using reorder_permutation [of 1 3 "init\<lparr> items :=
      [\<lparr>id' = 1, name = ''a''\<rparr>, \<lparr>id' = 2, name = ''b''\<rparr>, \<lparr>id' = 3, name = ''c''\<rparr>] \<rparr>"]
  by simp

subsection \<open>Moving one element\<close>

lemma insert_at_nth: "ti \<le> length r \<Longrightarrow> (take ti r @ [x] @ drop ti r) ! ti = x"
  by (simp add: nth_append)

lemma insert_at_others:
  "ti \<le> length r \<Longrightarrow>
   take ti (take ti r @ [x] @ drop ti r) @ drop (Suc ti) (take ti r @ [x] @ drop ti r) = r"
  by simp

lemma insert_at_left:
  "j < ti \<Longrightarrow> ti \<le> length r \<Longrightarrow> (take ti r @ [x] @ drop ti r) ! j = r ! j"
  by (simp add: nth_append)

lemma insert_at_right:
  "ti < length r \<Longrightarrow> (take ti r @ [x] @ drop ti r) ! (ti + 1) = r ! ti"
proof -
  assume a: "ti < length r"
  then have l: "length (take ti r) = ti" by simp
  have "(take ti r @ [x] @ drop ti r) ! (length (take ti r) + 1) = ([x] @ drop ti r) ! 1"
    by (rule nth_append_length_plus)
  also have "\<dots> = drop ti r ! 0" by simp
  also have "\<dots> = r ! ti" using a by simp
  finally show ?thesis using l by simp
qed

lemma length_moved: "di < length xs \<Longrightarrow> length (moved di ti xs) = length xs"
  using mset_moved [of di xs ti] by (metis mset_eq_length)

lemma moved_nth_target:
  assumes "di < length xs" "ti < length xs"
  shows "moved di ti xs ! ti = xs ! di"
proof -
  define r where "r = take di xs @ drop (Suc di) xs"
  from assms have "ti \<le> length r" by (simp add: r_def)
  from insert_at_nth [OF this] show ?thesis by (simp add: moved_def r_def)
qed

lemma moved_others:
  assumes "di < length xs" "ti < length xs"
  shows "take ti (moved di ti xs) @ drop (Suc ti) (moved di ti xs)
           = take di xs @ drop (Suc di) xs"
proof -
  define r where "r = take di xs @ drop (Suc di) xs"
  from assms have "ti \<le> length r" by (simp add: r_def)
  from insert_at_others [OF this, of "xs ! di"] show ?thesis
    unfolding moved_def Let_def r_def .
qed

lemma moved_after_target:
  assumes "di < ti" "ti < length xs"
  shows "moved di ti xs ! (ti - 1) = xs ! ti"
proof -
  define r where "r = take di xs @ drop (Suc di) xs"
  from assms have l: "ti \<le> length r" "ti - 1 < ti" by (simp_all add: r_def)
  have "moved di ti xs ! (ti - 1) = r ! (ti - 1)"
    using insert_at_left [OF l(2) l(1), of "xs ! di"] by (simp add: moved_def r_def)
  also have "\<dots> = drop (Suc di) xs ! (ti - 1 - di)"
    using assms by (simp add: r_def nth_append_right)
  also have "\<dots> = xs ! (Suc di + (ti - 1 - di))" using assms by simp
  also have "Suc di + (ti - 1 - di) = ti" using assms by arith
  finally show ?thesis .
qed

lemma moved_before_target:
  assumes "ti < di" "di < length xs"
  shows "moved di ti xs ! (ti + 1) = xs ! ti"
proof -
  define r where "r = take di xs @ drop (Suc di) xs"
  from assms have l: "ti < length r" by (simp add: r_def)
  have "moved di ti xs ! (ti + 1) = r ! ti"
    using insert_at_right [OF l, of "xs ! di"] by (simp add: moved_def r_def)
  also have "\<dots> = xs ! ti" using assms by (simp add: r_def nth_append)
  finally show ?thesis .
qed

text \<open>C1 (as amended). When the dragged and the target id differ and both are listed,
  \<open>reorder\<close> takes the dragged item out and puts it back at the index the target had
  before the removal. The dragged item then stands at that index, every other item keeps
  its place relative to the others (a move of one item), and the target is the
  neighbour of the dragged item: directly before it when the item was dragged from
  before the target, directly after it when the item was dragged from behind the
  target. On \<open>[1,2,3,4]\<close>, \<open>reorder(1,3)\<close> gives \<open>[2,3,1,4]\<close>.\<close>

theorem reorder_moves_to_target_index:
  assumes "draggedId \<noteq> targetId"
    and "draggedId \<in> id' ` set (items s)"
    and "targetId \<in> id' ` set (items s)"
  shows "let xs = items s;
             di = nat (findIndex (\<lambda>it. id' it = draggedId) xs);
             ti = nat (findIndex (\<lambda>it. id' it = targetId) xs);
             ys = items (reorder draggedId targetId s)
         in di < length xs \<and> ti < length xs \<and>
            id' (xs ! di) = draggedId \<and> id' (xs ! ti) = targetId \<and>
            ys = moved di ti xs \<and>
            ys ! ti = xs ! di \<and>
            take ti ys @ drop (Suc ti) ys = take di xs @ drop (Suc di) xs \<and>
            (di < ti \<longrightarrow> ys ! (ti - 1) = xs ! ti) \<and>
            (ti < di \<longrightarrow> ys ! (ti + 1) = xs ! ti)"
proof -
  let ?s = "handleDragStart draggedId s"
  let ?di = "nat (findIndex (\<lambda>it. id' it = draggedId) (items s))"
  let ?ti = "nat (findIndex (\<lambda>it. id' it = targetId) (items s))"
  have it: "items ?s = items s" and dr: "dragItem ?s = Some draggedId"
    by (simp_all add: handleDragStart_def)
  have fd: "findIndex (\<lambda>it. id' it = draggedId) (items ?s) = int ?di"
    using findIndex_nat [OF findIndex_id [OF assms(2)]] it by simp
  have ft: "findIndex (\<lambda>it. id' it = targetId) (items ?s) = int ?ti"
    using findIndex_nat [OF findIndex_id [OF assms(3)]] it by simp
  from findIndex_nth [OF fd] it have di: "?di < length (items s)" "id' (items s ! ?di) = draggedId"
    by simp_all
  from findIndex_nth [OF ft] it have ti: "?ti < length (items s)" "id' (items s ! ?ti) = targetId"
    by simp_all
  have ys: "items (reorder draggedId targetId s) = moved ?di ?ti (items s)"
    unfolding reorder_def using handleDrop_move [OF dr assms(1) fd ft] it by simp
  show ?thesis
    unfolding Let_def ys
    using di ti moved_nth_target [OF di(1) ti(1)] moved_others [OF di(1) ti(1)]
      moved_after_target [OF _ ti(1)] moved_before_target [OF _ di(1)]
    by blast
qed

theorem reorder_moves_to_target_index_witness:
  "items (reorder 1 3 (init\<lparr>items := [item1, item2, item3, item4]\<rparr>))
     = [item2, item3, item1, item4] \<and>
   items (reorder 3 1 (init\<lparr>items := [item1, item2, item3, item4]\<rparr>))
     = [item3, item1, item2, item4]"
proof -
  let ?s = "init\<lparr>items := [item1, item2, item3, item4]\<rparr>"
  have a: "(1::int) \<noteq> 3" "(1::int) \<in> id' ` set (items ?s)" "(3::int) \<in> id' ` set (items ?s)"
    by (simp_all add: init_def)
  have b: "(3::int) \<noteq> 1" by simp
  from reorder_moves_to_target_index [OF a]
  have "items (reorder 1 3 ?s) = [item2, item3, item1, item4]"
    by (simp add: Let_def init_def moved_def)
  moreover from reorder_moves_to_target_index [OF b a(3) a(2)]
  have "items (reorder 3 1 ?s) = [item3, item1, item2, item4]"
    by (simp add: Let_def init_def moved_def)
  ultimately show ?thesis by simp
qed

text \<open>C1 as the specification words it fails on its own example: after \<open>reorder(1,3)\<close>
  on \<open>[1,2,3,4]\<close> the dragged item follows the target, whereas reinserting it
  immediately before the target's position after the removal gives \<open>[2,1,3,4]\<close>.\<close>

theorem reorder_not_before_target:
  "items (reorder 1 3 (init\<lparr>items := [item1, item2, item3, item4]\<rparr>))
     = [item2, item3, item1, item4] \<and>
   spec_reorder 1 3 [item1, item2, item3, item4] = [item2, item1, item3, item4] \<and>
   items (reorder 1 3 (init\<lparr>items := [item1, item2, item3, item4]\<rparr>))
     \<noteq> spec_reorder 1 3 [item1, item2, item3, item4]"
  by (simp add: reorder_def handleDrop_def handleDragStart_def init_def splice_def
      splice_start_def spec_reorder_def Let_def)

text \<open>C5. \<open>reorder(a, b)\<close> with \<open>a = b\<close>, or with \<open>a\<close> or \<open>b\<close> not among the ids of the
  list, leaves the list as it is; the only trace is the remembered dragged id.\<close>

theorem reorder_identity:
  assumes "a = b \<or> a \<notin> id' ` set (items s) \<or> b \<notin> id' ` set (items s)"
  shows "items (reorder a b s) = items s \<and> reorder a b s = handleDragStart a s"
proof -
  have "(\<forall>x\<in>set (items s). id' x \<noteq> a) \<or> (\<forall>x\<in>set (items s). id' x \<noteq> b) \<or> a = b"
    using assms by auto
  then have "handleDrop b (handleDragStart a s) = handleDragStart a s"
    by (auto simp: handleDrop_def handleDragStart_def Let_def findIndex_absent)
  then show ?thesis by (simp add: reorder_def handleDragStart_def)
qed

theorem reorder_identity_witness:
  "items (reorder 2 2 (init\<lparr>items := [item1, item2]\<rparr>)) = [item1, item2] \<and>
   items (reorder 7 2 (init\<lparr>items := [item1, item2]\<rparr>)) = [item1, item2] \<and>
   items (reorder 1 7 (init\<lparr>items := [item1, item2]\<rparr>)) = [item1, item2]"
  using reorder_identity [of 2 2 "init\<lparr>items := [item1, item2]\<rparr>"]
    reorder_identity [of 7 2 "init\<lparr>items := [item1, item2]\<rparr>"]
    reorder_identity [of 1 7 "init\<lparr>items := [item1, item2]\<rparr>"]
  by (simp add: init_def handleDragStart_def)

subsection \<open>Answers of the server\<close>

text \<open>C2. Whatever the list held before, a successful answer to a request for page 1
  replaces the list by the fetched items, and a successful answer to a request for any
  other page appends the fetched items after the items already listed, which keep their
  order. The page is the one the request was sent for.\<close>

theorem fetch_replaces_or_appends:
  "items (then_cb 1 res s) = data_items res \<and>
   (p \<noteq> 1 \<longrightarrow> items (then_cb p res s) = items s @ data_items res) \<and>
   (n < length (inflight s) \<longrightarrow>
      (\<exists>s'. fire (Response n res) s = Some s' \<and>
         items s' = (if fst (inflight s ! n) = 1 then data_items res
                     else items s @ data_items res)))"
  by (simp add: then_cb_def)

theorem fetch_replaces_or_appends_witness:
  "items (then_cb 1 answer34 (init\<lparr>items := [item1, item2]\<rparr>)) = [item3, item4] \<and>
   items (then_cb 2 answer34 (init\<lparr>items := [item1, item2]\<rparr>))
     = [item1, item2, item3, item4] \<and>
   map_option items (fire (Response 0 answer34)
       (init\<lparr>items := [item1, item2], inflight := [(2, [])]\<rparr>))
     = Some [item1, item2, item3, item4]"
  using fetch_replaces_or_appends
    [of answer34 "init\<lparr>items := [item1, item2], inflight := [(2, [])]\<rparr>" 2 0]
  by (simp add: init_def then_cb_def)

text \<open>C8. Every successful answer, for page 1 or for a later page, replaces
  \<open>originalItems\<close> by exactly the fetched items and \<open>selected\<close> by exactly the set of the
  ids the server reports as selected.\<close>

theorem fetch_replaces_snapshot_and_selection:
  "originalItems (then_cb p res s) = data_items res \<and>
   selected (then_cb p res s) = set (data_selected res) \<and>
   (n < length (inflight s) \<longrightarrow>
      (\<exists>s'. fire (Response n res) s = Some s' \<and>
         originalItems s' = data_items res \<and> selected s' = set (data_selected res)))"
  by (simp add: then_cb_def)

theorem fetch_replaces_snapshot_and_selection_witness:
  "originalItems (then_cb 2 answer34 (init\<lparr>originalItems := [item1, item2], selected := {1}\<rparr>))
     = [item3, item4] \<and>
   selected (then_cb 2 answer34 (init\<lparr>originalItems := [item1, item2], selected := {1}\<rparr>))
     = {2, 3} \<and>
   map_option selected (fire (Response 0 answer34)
       (init\<lparr>selected := {1}, inflight := [(1, [])]\<rparr>)) = Some {2, 3}"
  using fetch_replaces_snapshot_and_selection
    [of 2 answer34 "init\<lparr>originalItems := [item1, item2], selected := {1}\<rparr>"]
    fetch_replaces_snapshot_and_selection
    [of _ answer34 "init\<lparr>selected := {1}, inflight := [(1, [])]\<rparr>" 0]
  by (auto simp add: init_def)

text \<open>C7. When a request fails, the \<open>catch\<close> callback writes one line to the console
  and the \<open>finally\<close> callback lowers the flag; the list, the snapshot, the selection, the
  page and the query are as before, and no request is sent (nothing partial, no retry).\<close>

theorem fetch_failure_leaves_state:
  assumes "n < length (inflight s)"
  shows "\<exists>s1 s2. fire (Failure n) s = Some s1 \<and> fire Finally s1 = Some s2 \<and>
           console s1 = Suc (console s) \<and>
           items s1 = items s \<and> originalItems s1 = originalItems s \<and>
           selected s1 = selected s \<and> page s1 = page s \<and> query s1 = query s \<and>
           sent s1 = sent s \<and>
           items s2 = items s \<and> originalItems s2 = originalItems s \<and>
           selected s2 = selected s \<and> page s2 = page s \<and> query s2 = query s \<and>
           sent s2 = sent s \<and> console s2 = Suc (console s) \<and>
           length (inflight s2) < length (inflight s)"
  using assms by (simp add: catch_cb_def finally_cb_def)

theorem fetch_failure_leaves_state_witness:
  "map_option (\<lambda>s. (items s, originalItems s, selected s, console s, sent s, inflight s))
     (run [Failure 0, Finally]
        (init\<lparr>items := [item1, item2], originalItems := [item2], selected := {2},
              loadingRef := True, inflight := [(2, [])]\<rparr>))
   = Some ([item1, item2], [item2], {2}, 1, [], [])"
  using fetch_failure_leaves_state
    [of 0 "init\<lparr>items := [item1, item2], originalItems := [item2], selected := {2},
              loadingRef := True, inflight := [(2, [])]\<rparr>"]
  by (auto simp add: init_def catch_cb_def finally_cb_def)

subsection \<open>Selection\<close>

lemma toggle_member:
  "(i \<in> selected (handleToggleSelect j s)) = (if i = j then i \<notin> selected s else i \<in> selected s)"
  by (auto simp: handleToggleSelect_def Let_def)

lemma fold_toggle_member:
  "(i \<in> selected (fold handleToggleSelect ids s)) = ((i \<in> selected s) \<noteq> odd (count_list ids i))"
  by (induction ids arbitrary: s) (auto simp: toggle_member)

lemma funpow_toggle_member:
  "(i \<in> selected ((handleToggleSelect i ^^ n) s)) = ((i \<in> selected s) \<noteq> odd n)"
  by (induction n arbitrary: s) (auto simp: toggle_member funpow_swap1)

text \<open>C4. Starting from a selection that does not hold \<open>i\<close>, after any number of
  toggles of \<open>i\<close> the id is selected exactly when that number is odd; the same holds when
  toggles of other ids come in between, counting the toggles of \<open>i\<close>.\<close>

theorem toggle_parity:
  assumes "i \<notin> selected s"
  shows "(i \<in> selected ((handleToggleSelect i ^^ n) s)) = odd n \<and>
         (i \<in> selected (fold handleToggleSelect ids s)) = odd (count_list ids i)"
  using assms by (simp add: fold_toggle_member funpow_toggle_member)

theorem toggle_parity_witness:
  "(2::int) \<notin> selected (init\<lparr>selected := {1}\<rparr>) \<and>
   2 \<in> selected ((handleToggleSelect 2 ^^ 3) (init\<lparr>selected := {1}\<rparr>)) \<and>
   2 \<notin> selected (fold handleToggleSelect [2, 1, 2] (init\<lparr>selected := {1}\<rparr>))"
proof -
  have h: "(2::int) \<notin> selected (init\<lparr>selected := {1}\<rparr>)" by (simp add: init_def)
  from toggle_parity [OF h, of 3 "[2, 1, 2]"] h show ?thesis by simp
qed

subsection \<open>Clearing the search\<close>

lemma fire_originalItems:
  "fire e s = Some s' \<Longrightarrow> \<not> is_response e \<Longrightarrow> originalItems s' = originalItems s"
  by (cases e)
    (auto simp: render_def fetchEffect_def queryEffect_def catch_cb_def finally_cb_def
      handleScroll_def handleSearchChange_def handleToggleSelect_def handleDragStart_def
      dropOnRendered_fields Let_def split: if_splits option.splits)

lemma run_originalItems:
  "run es s = Some s' \<Longrightarrow> \<forall>e \<in> set es. \<not> is_response e \<Longrightarrow> originalItems s' = originalItems s"
proof (induction es arbitrary: s)
  case Nil
  then show ?case by simp
next
  case (Cons e es)
  from Cons.prems(1) obtain s1 where s1: "fire e s = Some s1" "run es s1 = Some s'"
    by (auto split: option.splits)
  from Cons.prems(2) have "\<not> is_response e" "\<forall>e \<in> set es. \<not> is_response e" by simp_all
  with Cons.IH [OF s1(2)] fire_originalItems [OF s1(1)] show ?case by simp
qed

lemma fire_renderedOriginalItems:
  "fire e s = Some s' \<Longrightarrow> e \<noteq> Render \<Longrightarrow> renderedOriginalItems s' = renderedOriginalItems s"
  by (cases e)
    (auto simp: then_cb_def catch_cb_def finally_cb_def
      handleScroll_def handleSearchChange_def handleToggleSelect_def handleDragStart_def
      dropOnRendered_fields Let_def split: if_splits option.splits)

lemma render_originalItems:
  "renderedOriginalItems (render s) = originalItems s \<and> originalItems (render s) = originalItems s"
  by (simp add: render_def fetchEffect_def queryEffect_def Let_def)

lemma run_rendered_snapshot:
  "run es s = Some s' \<Longrightarrow> \<forall>e \<in> set es. \<not> is_response e \<Longrightarrow>
   Render \<in> set es \<or> renderedOriginalItems s = originalItems s \<Longrightarrow>
   renderedOriginalItems s' = originalItems s'"
proof (induction es arbitrary: s)
  case Nil
  then show ?case by simp
next
  case (Cons e es)
  from Cons.prems(1) obtain s1 where s1: "fire e s = Some s1" "run es s1 = Some s'"
    by (auto split: option.splits)
  from Cons.prems(2) have n: "\<not> is_response e" "\<forall>e \<in> set es. \<not> is_response e" by simp_all
  have "Render \<in> set es \<or> renderedOriginalItems s1 = originalItems s1"
  proof (cases "e = Render")
    case True
    with s1(1) render_originalItems [of s] show ?thesis by simp
  next
    case False
    from fire_renderedOriginalItems [OF s1(1) False] fire_originalItems [OF s1(1) n(1)]
      Cons.prems(3) False
    show ?thesis by auto
  qed
  from Cons.IH [OF s1(2) n(2) this] show ?case .
qed

text \<open>C3 (as amended). In every state, a change of the query to the empty string sets the
  page to 1 and the query to the empty string in the handler itself, without a request.
  When the component has rendered since the snapshot was last written, the list becomes
  exactly \<open>originalItems\<close>; in particular, after a successful answer and a render, whatever
  else happens other than a further answer, clearing the query restores exactly the
  items of that answer, the page fetched last.\<close>

theorem clear_query_restores_snapshot:
  "page (handleSearchChange [] s) = 1 \<and> query (handleSearchChange [] s) = [] \<and>
   sent (handleSearchChange [] s) = sent s \<and>
   inflight (handleSearchChange [] s) = inflight s \<and>
   (renderedOriginalItems s = originalItems s
    \<longrightarrow> items (handleSearchChange [] s) = originalItems s) \<and>
   (fire (Response n res) s0 = Some s1 \<and> run es s1 = Some s \<and>
    (\<forall>e \<in> set es. \<not> is_response e) \<and> Render \<in> set es
    \<longrightarrow> originalItems s = data_items res \<and>
        items (handleSearchChange [] s) = data_items res)"
proof -
  have a: "items (handleSearchChange [] s) = renderedOriginalItems s"
    by (simp add: handleSearchChange_def)
  have "originalItems s = data_items res \<and> renderedOriginalItems s = data_items res"
    if "fire (Response n res) s0 = Some s1" "run es s1 = Some s"
      "\<forall>e \<in> set es. \<not> is_response e" "Render \<in> set es"
  proof -
    from that(1) have "originalItems s1 = data_items res"
      by (auto simp: then_cb_def split: if_splits)
    with run_originalItems [OF that(2) that(3)]
    have o: "originalItems s = data_items res" by simp
    from run_rendered_snapshot [OF that(2) that(3)] that(4)
    have "renderedOriginalItems s = originalItems s" by simp
    with o show ?thesis by simp
  qed
  with a show ?thesis by (auto simp: handleSearchChange_def)
qed

theorem clear_query_restores_snapshot_witness:
  "case run [Render, Response 0 answer34, Finally, Scroll at_bottom, Render] init of
     None \<Rightarrow> False
   | Some s0 \<Rightarrow>
       (case fire (Response 0 answer12) s0 of
          None \<Rightarrow> False
        | Some s1 \<Rightarrow>
            (case run [Finally, Render, DragStart 1, Drop 4, SearchChange ''x''] s1 of
               None \<Rightarrow> False
             | Some s \<Rightarrow>
                 items s = [item3, item1, item4, item2] \<and>
                 originalItems s = [item1, item2] \<and>
                 items (handleSearchChange [] s) = [item1, item2] \<and>
                 page (handleSearchChange [] s) = 1))"
proof -
  let ?es = "[Finally, Render, DragStart 1, Drop 4, SearchChange ''x'']"
  have "\<exists>s0. run [Render, Response 0 answer34, Finally, Scroll at_bottom, Render] init = Some s0
      \<and> inflight s0 = [(2, [])] \<and> items s0 = [item3, item4]"
    by (simp add: init_def render_def fetchEffect_def queryEffect_def then_cb_def
        finally_cb_def handleScroll_def Let_def)
  then obtain s0
    where s0: "run [Render, Response 0 answer34, Finally, Scroll at_bottom, Render] init = Some s0"
      and f0: "inflight s0 = [(2, [])]" "items s0 = [item3, item4]"
    by (elim exE conjE)
  have "\<exists>s1. fire (Response 0 answer12) s0 = Some s1
      \<and> items s1 = [item3, item4, item1, item2] \<and> 0 < settling s1"
    by (simp add: f0 then_cb_def)
  then obtain s1 where s1: "fire (Response 0 answer12) s0 = Some s1"
    and f1: "items s1 = [item3, item4, item1, item2]" "0 < settling s1"
    by (elim exE conjE)
  have "\<exists>s. run ?es s1 = Some s \<and> items s = [item3, item1, item4, item2]"
    using f1 by (simp add: finally_cb_def handleDragStart_def dropOnRendered_def
        handleDrop_def splice_def splice_start_def handleSearchChange_def render_def
        fetchEffect_def queryEffect_def Let_def)
  then obtain s where s: "run ?es s1 = Some s" and i: "items s = [item3, item1, item4, item2]"
    by (elim exE conjE)
  have n: "\<forall>e \<in> set ?es. \<not> is_response e" "Render \<in> set ?es" by simp_all
  from clear_query_restores_snapshot [of s 0 answer12 s0 s1 ?es] s1 s n
  have "items (handleSearchChange [] s) = data_items answer12"
    and "originalItems s = data_items answer12"
    and p: "page (handleSearchChange [] s) = 1"
    by blast+
  then have r: "items (handleSearchChange [] s) = [item1, item2]"
    "originalItems s = [item1, item2]" by simp_all
  show ?thesis unfolding s0 s1 s option.case using r p i by simp
qed

text \<open>C3 as stated fails between an answer and the next render: after a search for
  \<open>x\<close> is answered with items 3 and 4, clearing the query before the component has
  rendered again puts the snapshot of the last render (items 1 and 2) in the list, while
  \<open>originalItems\<close>, the page fetched last, holds items 3 and 4.\<close>

theorem clear_query_before_render:
  "map_option (\<lambda>s. (items s, originalItems s, page s))
     (run [Render, Response 0 answer12, Finally, SearchChange ''x'', Render,
           Response 0 answer34, SearchChange []] init)
   = Some ([item1, item2], [item3, item4], 1)"
  by (simp add: init_def render_def fetchEffect_def queryEffect_def then_cb_def
      finally_cb_def handleSearchChange_def Let_def)

subsection \<open>One request at a time\<close>

lemma fire_guard_ok: "guard_ok s \<Longrightarrow> fire e s = Some s' \<Longrightarrow> guard_ok s'"
proof (cases e)
  case Render
  assume "guard_ok s" "fire e s = Some s'"
  with Render show ?thesis
    by (auto simp: guard_ok_def render_def fetchEffect_def queryEffect_def Let_def
        split: if_splits)
next
  case (Response n res)
  assume "guard_ok s" "fire e s = Some s'"
  with Response show ?thesis
    by (auto simp: guard_ok_def then_cb_def split: if_splits)
next
  case (Failure n)
  assume "guard_ok s" "fire e s = Some s'"
  with Failure show ?thesis
    by (auto simp: guard_ok_def catch_cb_def split: if_splits)
next
  case Finally
  assume "guard_ok s" "fire e s = Some s'"
  with Finally show ?thesis
    by (cases "inflight s") (auto simp: guard_ok_def finally_cb_def split: if_splits)
next
  case (Scroll b)
  assume "guard_ok s" "fire e s = Some s'"
  with Scroll show ?thesis
    by (auto simp: guard_ok_def handleScroll_def split: if_splits option.splits)
next
  case (SearchChange q)
  assume "guard_ok s" "fire e s = Some s'"
  with SearchChange show ?thesis
    by (auto simp: guard_ok_def handleSearchChange_def Let_def split: if_splits)
next
  case (ToggleSelect i)
  assume "guard_ok s" "fire e s = Some s'"
  with ToggleSelect show ?thesis
    by (auto simp: guard_ok_def handleToggleSelect_def Let_def split: if_splits)
next
  case (DragStart i)
  assume "guard_ok s" "fire e s = Some s'"
  with DragStart show ?thesis
    by (auto simp: guard_ok_def handleDragStart_def split: if_splits)
next
  case (Drop i)
  assume "guard_ok s" "fire e s = Some s'"
  with Drop show ?thesis
    by (auto simp: guard_ok_def dropOnRendered_fields)
qed

lemma run_guard_ok: "guard_ok s \<Longrightarrow> run es s = Some s' \<Longrightarrow> guard_ok s'"
proof (induction es arbitrary: s)
  case Nil
  then show ?case by simp
next
  case (Cons e es)
  from Cons.prems(2) obtain s1 where s1: "fire e s = Some s1" "run es s1 = Some s'"
    by (auto split: option.splits)
  from Cons.IH [OF fire_guard_ok [OF Cons.prems(1) s1(1)] s1(2)] show ?case .
qed

lemma guard_ok_init: "guard_ok init"
  by (simp add: guard_ok_def init_def)

text \<open>C6. In every state reached from the initial one, at most one request is under
  way, and the flag is up exactly while a request is under way or its chain has not yet
  reached \<open>finally\<close>. While the flag is up, the fetch effect and the scroll handler leave
  the state as it is, also right after a change of the query: the request is dropped,
  nothing is queued. With the flag down the effect raises it and sends the request, and
  both the chain of an answer and the chain of a failure end by lowering it.\<close>

theorem one_fetch_in_flight:
  "(run es init = Some s \<longrightarrow>
      length (inflight s) \<le> 1 \<and>
      (loadingRef s = (length (inflight s) + settling s = 1)) \<and>
      (\<not> loadingRef s \<longrightarrow> inflight s = [])) \<and>
   (loadingRef t \<longrightarrow>
      fetchEffect t = t \<and> handleScroll box t = t \<and>
      inflight (render t) = inflight t \<and> sent (render t) = sent t \<and>
      inflight (render (handleSearchChange q t)) = inflight t \<and>
      sent (render (handleSearchChange q t)) = sent t) \<and>
   (\<not> loadingRef u \<longrightarrow>
      loadingRef (fetchEffect u) \<and>
      inflight (fetchEffect u) = inflight u @ [(page u, query u)] \<and>
      sent (fetchEffect u) = sent u @ [GetItems (page u) (query u)]) \<and>
   (n < length (inflight v) \<longrightarrow>
      (\<exists>v'. run [Response n res, Finally] v = Some v' \<and> \<not> loadingRef v') \<and>
      (\<exists>v'. run [Failure n, Finally] v = Some v' \<and> \<not> loadingRef v'))"
proof -
  have a: "length (inflight s) \<le> 1 \<and>
      (loadingRef s = (length (inflight s) + settling s = 1)) \<and>
      (\<not> loadingRef s \<longrightarrow> inflight s = [])" if "run es init = Some s"
    using run_guard_ok [OF guard_ok_init that] by (auto simp: guard_ok_def split: if_splits)
  have b: "fetchEffect t = t \<and> handleScroll box t = t \<and>
      inflight (render t) = inflight t \<and> sent (render t) = sent t \<and>
      inflight (render (handleSearchChange q t)) = inflight t \<and>
      sent (render (handleSearchChange q t)) = sent t" if "loadingRef t"
    using that
    by (auto simp: fetchEffect_def handleScroll_def render_def queryEffect_def
        handleSearchChange_def Let_def split: option.splits)
  have c: "loadingRef (fetchEffect u) \<and>
      inflight (fetchEffect u) = inflight u @ [(page u, query u)] \<and>
      sent (fetchEffect u) = sent u @ [GetItems (page u) (query u)]" if "\<not> loadingRef u"
    using that by (simp add: fetchEffect_def)
  have d: "(\<exists>v'. run [Response n res, Finally] v = Some v' \<and> \<not> loadingRef v') \<and>
      (\<exists>v'. run [Failure n, Finally] v = Some v' \<and> \<not> loadingRef v')"
    if "n < length (inflight v)"
    using that by (simp add: then_cb_def catch_cb_def finally_cb_def)
  from a b c d show ?thesis by blast
qed

theorem one_fetch_in_flight_witness:
  "(case run [Render, Scroll at_bottom, Render, SearchChange ''x'', Render] init of
      None \<Rightarrow> False
    | Some s \<Rightarrow> length (inflight s) \<le> 1 \<and> loadingRef s \<and> sent s = [GetItems 1 []]) \<and>
   loadingRef (init\<lparr>loadingRef := True, inflight := [(1, [])]\<rparr>) \<and>
   handleScroll at_bottom (init\<lparr>loadingRef := True, inflight := [(1, [])]\<rparr>)
     = init\<lparr>loadingRef := True, inflight := [(1, [])]\<rparr> \<and>
   inflight (render (handleSearchChange ''x'' (init\<lparr>loadingRef := True, inflight := [(1, [])]\<rparr>)))
     = [(1, [])] \<and>
   \<not> loadingRef init \<and> inflight (fetchEffect init) = [(1, [])] \<and>
   (\<exists>v'. run [Response 0 answer12, Finally] (init\<lparr>loadingRef := True, inflight := [(1, [])]\<rparr>)
           = Some v' \<and> \<not> loadingRef v') \<and>
   (\<exists>v'. run [Failure 0, Finally] (init\<lparr>loadingRef := True, inflight := [(1, [])]\<rparr>)
           = Some v' \<and> \<not> loadingRef v')"
proof -
  let ?es = "[Render, Scroll at_bottom, Render, SearchChange ''x'', Render]"
  let ?t = "init\<lparr>loadingRef := True, inflight := [(1, [])]\<rparr>"
  have "\<exists>s. run ?es init = Some s \<and> loadingRef s \<and> sent s = [GetItems 1 []]"
    by (simp add: init_def render_def fetchEffect_def queryEffect_def handleScroll_def
        handleSearchChange_def Let_def)
  then obtain s where s: "run ?es init = Some s" and f: "loadingRef s" "sent s = [GetItems 1 []]"
    by (elim exE conjE)
  have t: "loadingRef ?t" "\<not> loadingRef init" "0 < length (inflight ?t)"
    "inflight ?t = [(1, [])]" "page init = 1" "query init = []" "inflight init = []"
    by (simp_all add: init_def)
  note th = one_fetch_in_flight [of ?es s ?t at_bottom "''x''" init 0 ?t answer12]
  from th s have 1: "length (inflight s) \<le> 1" by blast
  from th t(1) have 2: "handleScroll at_bottom ?t = ?t"
    "inflight (render (handleSearchChange ''x'' ?t)) = inflight ?t" by blast+
  from th t(2) have 3: "inflight (fetchEffect init) = inflight init @ [(page init, query init)]"
    by blast
  from th t(3) have 4: "\<exists>v'. run [Response 0 answer12, Finally] ?t = Some v' \<and> \<not> loadingRef v'"
    "\<exists>v'. run [Failure 0, Finally] ?t = Some v' \<and> \<not> loadingRef v'" by blast+
  have 5: "case run ?es init of None \<Rightarrow> False
    | Some s \<Rightarrow> length (inflight s) \<le> 1 \<and> loadingRef s \<and> sent s = [GetItems 1 []]"
    unfolding s option.case using 1 f by simp
  from 2 3 4 5 t show ?thesis by (simp only: append_Nil simp_thms)
qed

subsection \<open>Ids of the list\<close>






end
